theory Spec2Isabelle
  imports
    Main
    "HOL-Library.Sublist"
    "HOL-Library.Multiset"
    "HOL-Library.Char_ord"
    "HOL-Library.List_Lexorder"
    "HOL-Library.Word"
begin

unbundle bit_operations_syntax

section \<open>Deduplication of result records (context-manager.ts)\<close>

text \<open>
  \<^verbatim>\<open>dedupeBy\<close> and \<^verbatim>\<open>dedupeAgainstRequest\<close> run the same filter callback:
  \<^verbatim>\<open>
    const id = getId(x);
    if (!id || seen.has(id)) return false;
    seen.add(id);
    return true;
  \<close>
  over a mutable set of ids. The callback is modelled once, with the set threaded through
  the traversal and returned next to the kept records. Ids are strings; the only falsy
  string of JavaScript is the empty one.
\<close>

fun filter_seen :: "('a \<Rightarrow> string) \<Rightarrow> string set \<Rightarrow> 'a list \<Rightarrow> 'a list \<times> string set" where
  "filter_seen getId seen [] = ([], seen)"
| "filter_seen getId seen (x # xs) =
     (let id = getId x in
      if id = [] \<or> id \<in> seen then filter_seen getId seen xs
      else (case filter_seen getId (insert id seen) xs of
              (kept, seen') \<Rightarrow> (x # kept, seen')))"

definition dedupeBy :: "'a list \<Rightarrow> ('a \<Rightarrow> string) \<Rightarrow> 'a list" where
  "dedupeBy arr getId = fst (filter_seen getId {} arr)"

text \<open>
  \<^verbatim>\<open>seenByRequest\<close> is a process-wide \<^verbatim>\<open>Map<string, Set<string>>\<close>: a partial map from
  request ids to sets of record ids. \<^verbatim>\<open>requestId\<close> is \<^verbatim>\<open>string | undefined\<close>; it is
  falsy when it is \<^verbatim>\<open>undefined\<close> or the empty string.
\<close>

type_synonym seen_by_request = "string \<rightharpoonup> string set"

definition dedupeAgainstRequest ::
  "seen_by_request \<Rightarrow> string option \<Rightarrow> 'a list \<Rightarrow> ('a \<Rightarrow> string) \<Rightarrow> 'a list \<times> seen_by_request" where
  "dedupeAgainstRequest seenByRequest requestId items getId =
     (case requestId of
        None \<Rightarrow> (items, seenByRequest)
      | Some rid \<Rightarrow>
          if rid = [] then (items, seenByRequest)
          else
            (let bag = (case seenByRequest rid of None \<Rightarrow> {} | Some b \<Rightarrow> b) in
             case filter_seen getId bag items of
               (kept, bag') \<Rightarrow> (kept, seenByRequest(rid \<mapsto> bag'))))"

section \<open>The retrying timeout wrapper\<close>

text \<open>
  \<^verbatim>\<open>String.prototype.includes\<close>: the argument occurs as a contiguous run of characters.
\<close>

fun str_includes :: "string \<Rightarrow> string \<Rightarrow> bool" where
  "str_includes [] sub = (sub = [])"
| "str_includes (c # cs) sub = (prefix sub (c # cs) \<or> str_includes cs sub)"

text \<open>Decimal rendering of a non-negative integer, as a template literal prints it.\<close>

fun show_nat :: "nat \<Rightarrow> string" where
  "show_nat n =
     (if n < 10 then [''0123456789'' ! n]
      else show_nat (n div 10) @ [''0123456789'' ! (n mod 10)])"

declare show_nat.simps [simp del]

text \<open>
  An \<^verbatim>\<open>Error\<close> object is its message. One attempt of \<^verbatim>\<open>callValyuWithTimeout\<close> awaits
  \<^verbatim>\<open>Promise.race([valyu.search(searchQuery, searchOptions), timeoutPromise])\<close>; what the
  outside world decides is which of three things happens first: the search resolves,
  the search rejects, or the timer of \<^verbatim>\<open>timeoutMs\<close> fires.
\<close>

datatype js_error = Error (message: string)

datatype 'r attempt = Resolved 'r | Rejected js_error | TimerFirst

definition race :: "nat \<Rightarrow> 'r attempt \<Rightarrow> js_error + 'r" where
  "race timeoutMs a =
     (case a of
        Resolved r \<Rightarrow> Inr r
      | Rejected e \<Rightarrow> Inl e
      | TimerFirst \<Rightarrow> Inl (Error (''Request timeout after '' @ show_nat timeoutMs @ ''ms'')))"

text \<open>The test of the \<^verbatim>\<open>catch\<close> block, in the order of the source.\<close>

definition retryable :: "js_error \<Rightarrow> bool" where
  "retryable error \<longleftrightarrow>
     str_includes (message error) ''timeout'' \<or>
     str_includes (message error) ''ECONNRESET'' \<or>
     str_includes (message error) ''ENOTFOUND'' \<or>
     str_includes (message error) ''ETIMEDOUT''"

text \<open>
  What the wrapper does to the outside world, in order: it invokes the search (the
  attempt index is recorded) and it sleeps (\<^verbatim>\<open>setTimeout(resolve, delay)\<close>, in
  milliseconds; the timer resumes the loop no earlier than \<open>delay\<close> later).
\<close>

datatype event = Search nat | Sleep nat

text \<open>
  The \<^verbatim>\<open>for (let attempt = 0; attempt <= maxRetries; attempt++)\<close> loop. The search is a
  function from the attempt index to what that invocation does; \<^verbatim>\<open>maxRetries\<close> is a
  retry count (every call site passes 2). The result is the value returned or the error
  thrown, with the trace of events. The \<^verbatim>\<open>throw lastError || new Error(...)\<close> after the
  loop is the last branch.
\<close>

function retry_loop ::
  "(nat \<Rightarrow> 'r attempt) \<Rightarrow> nat \<Rightarrow> nat \<Rightarrow> nat \<Rightarrow> js_error option \<Rightarrow> (js_error + 'r) \<times> event list" where
  "retry_loop search timeoutMs maxRetries attempt lastError =
     (if attempt \<le> maxRetries then
        (case race timeoutMs (search attempt) of
           Inr result \<Rightarrow> (Inr result, [Search attempt])
         | Inl error \<Rightarrow>
             if retryable error \<and> attempt < maxRetries then
               (case retry_loop search timeoutMs maxRetries (attempt + 1) (Some error) of
                  (outcome, events) \<Rightarrow>
                    (outcome, Search attempt # Sleep (2 ^ attempt * 1000) # events))
             else (Inl error, [Search attempt]))
      else
        (Inl (case lastError of Some e \<Rightarrow> e | None \<Rightarrow> Error ''All retry attempts failed''), []))"
  by pat_completeness auto
termination
  by (relation "measure (\<lambda>(search, timeoutMs, maxRetries, attempt, lastError). Suc maxRetries - attempt)")
     auto

declare retry_loop.simps [simp del]

definition callValyuWithTimeout ::
  "(nat \<Rightarrow> 'r attempt) \<Rightarrow> nat \<Rightarrow> nat \<Rightarrow> (js_error + 'r) \<times> event list" where
  "callValyuWithTimeout search timeoutMs maxRetries = retry_loop search timeoutMs maxRetries 0 None"

definition invocations :: "event list \<Rightarrow> nat" where
  "invocations events = length (filter (\<lambda>e. case e of Search _ \<Rightarrow> True | Sleep _ \<Rightarrow> False) events)"

section \<open>The per-session memo\<close>

text \<open>
  A JavaScript \<^verbatim>\<open>Map<string, any>\<close> iterates in insertion order, so the memo of one session
  is an association list with distinct keys, oldest entry first. \<^verbatim>\<open>set\<close> on a key that is
  present replaces the value where it stands; on a new key it appends. \<^verbatim>\<open>delete\<close> removes
  the entry of the key. \<^verbatim>\<open>keys().next().value\<close> is the first key, or \<^verbatim>\<open>undefined\<close> when
  the map is empty.
\<close>

type_synonym 'v bag = "(string \<times> 'v) list"

fun map_set :: "'v bag \<Rightarrow> string \<Rightarrow> 'v \<Rightarrow> 'v bag" where
  "map_set [] k v = [(k, v)]"
| "map_set ((k', v') # rest) k v =
     (if k' = k then (k, v) # rest else (k', v') # map_set rest k v)"

definition map_delete :: "'v bag \<Rightarrow> string \<Rightarrow> 'v bag" where
  "map_delete bag k = filter (\<lambda>entry. fst entry \<noteq> k) bag"

definition map_first_key :: "'v bag \<Rightarrow> string option" where
  "map_first_key bag = (case bag of [] \<Rightarrow> None | entry # _ \<Rightarrow> Some (fst entry))"

definition SESSION_MEMO_MAX_KEYS :: nat where
  "SESSION_MEMO_MAX_KEYS = 200"

text \<open>
  The tail of \<^verbatim>\<open>withSessionMemo\<close>, after \<^verbatim>\<open>await run()\<close> has returned a value:
  \<^verbatim>\<open>
    if (bag.size >= SESSION_MEMO_MAX_KEYS) {
      const firstKey = bag.keys().next().value;
      if (firstKey) bag.delete(firstKey);
    }
    bag.set(key, value);
  \<close>
  \<^verbatim>\<open>if (firstKey)\<close> is a truthiness test: it fails for \<^verbatim>\<open>undefined\<close> and for the empty
  string.
\<close>

definition memo_store :: "'v bag \<Rightarrow> string \<Rightarrow> 'v \<Rightarrow> 'v bag" where
  "memo_store bag key value =
     map_set
       (if length bag \<ge> SESSION_MEMO_MAX_KEYS then
          (case map_first_key bag of
             None \<Rightarrow> bag
           | Some firstKey \<Rightarrow> if firstKey \<noteq> [] then map_delete bag firstKey else bag)
        else bag)
       key value"

text \<open>
  \<^verbatim>\<open>memoBySession\<close> is a process-wide \<^verbatim>\<open>Map<string, Map<string, any>>\<close>. \<^verbatim>\<open>run\<close> is the
  caller's asynchronous computation: it acts on the world outside the memo (of any type
  \<open>'w\<close>) and either rejects with an error or resolves with a value. The call is taken
  as one step: nothing else touches the memo between the lookup and the store.
  A falsy \<^verbatim>\<open>sessionId\<close> (\<^verbatim>\<open>undefined\<close> or the empty string) bypasses the memo.
\<close>

type_synonym 'v memo_by_session = "string \<rightharpoonup> 'v bag"

definition withSessionMemo ::
  "string option \<Rightarrow> string \<Rightarrow> ('w \<Rightarrow> (js_error + 'v) \<times> 'w) \<Rightarrow>
   'v memo_by_session \<times> 'w \<Rightarrow> (js_error + 'v) \<times> ('v memo_by_session \<times> 'w)" where
  "withSessionMemo sessionId key run state =
     (case state of (memoBySession, world) \<Rightarrow>
        if sessionId = None \<or> sessionId = Some [] then
          (case run world of (outcome, world') \<Rightarrow> (outcome, (memoBySession, world')))
        else
          (let sid = the sessionId;
               memo1 = (case memoBySession sid of
                          None \<Rightarrow> memoBySession(sid \<mapsto> [])
                        | Some _ \<Rightarrow> memoBySession);
               bag = (case memoBySession sid of None \<Rightarrow> [] | Some b \<Rightarrow> b)
           in case map_of bag key of
                Some cached \<Rightarrow> (Inr cached, (memo1, world))
              | None \<Rightarrow>
                  (case run world of
                     (Inl error, world') \<Rightarrow> (Inl error, (memo1, world'))
                   | (Inr value, world') \<Rightarrow>
                       (Inr value, (memo1(sid \<mapsto> memo_store bag key value), world')))))"

text \<open>What a session has cached under a key; nothing for a falsy session id.\<close>

definition cached_value :: "'v memo_by_session \<Rightarrow> string option \<Rightarrow> string \<Rightarrow> 'v option" where
  "cached_value memoBySession sessionId key =
     (case sessionId of
        None \<Rightarrow> None
      | Some sid \<Rightarrow>
          if sid = [] then None
          else (case memoBySession sid of None \<Rightarrow> None | Some bag \<Rightarrow> map_of bag key))"

text \<open>
  In the source \<^verbatim>\<open>await run()\<close> stands between the lookup and the store, so two calls of
  one session may overlap: each runs its part before the \<^verbatim>\<open>await\<close> (create the session's
  map if it is missing, look the key up) and, once \<^verbatim>\<open>run\<close> has resolved, its part after
  it (evict at capacity, store) on the session's map as it is by then. \<open>memo_begin\<close> is
  the first part, with what the lookup found; \<open>memo_finish\<close> is the second. The session's
  map is never removed from \<^verbatim>\<open>memoBySession\<close>, so the second part finds it.
\<close>

definition memo_begin ::
  "string \<Rightarrow> string \<Rightarrow> 'v memo_by_session \<Rightarrow> 'v option \<times> 'v memo_by_session" where
  "memo_begin sid key memoBySession =
     (let memo1 = (case memoBySession sid of
                     None \<Rightarrow> memoBySession(sid \<mapsto> [])
                   | Some _ \<Rightarrow> memoBySession);
          bag = (case memoBySession sid of None \<Rightarrow> [] | Some b \<Rightarrow> b)
      in (map_of bag key, memo1))"

definition memo_finish ::
  "string \<Rightarrow> string \<Rightarrow> 'v \<Rightarrow> 'v memo_by_session \<Rightarrow> 'v memo_by_session" where
  "memo_finish sid key value memoBySession =
     (case memoBySession sid of
        None \<Rightarrow> memoBySession
      | Some bag \<Rightarrow> memoBySession(sid \<mapsto> memo_store bag key value))"

section \<open>The key canonicalizer\<close>

text \<open>
  Option values are JSON-like JavaScript values. A number is carried as the text that
  \<^verbatim>\<open>JSON.stringify\<close> prints for it (a finite number; the canonicalizer only passes numbers
  through and prints them). An object is the list of its own properties in the order in
  which JavaScript enumerates them (\<^verbatim>\<open>Object.keys\<close>, \<^verbatim>\<open>JSON.stringify\<close>); an object has
  no two properties of the same name. Strings are lists of 8-bit characters, so the
  model covers the code units below 256.
\<close>

datatype json =
    JUndefined
  | JNull
  | JBool bool
  | JNum string
  | JStr string
  | JArr "json list"
  | JObj "(string \<times> json) list"

text \<open>
  \<^verbatim>\<open>JSON.stringify\<close> with one argument. A string is quoted, with the escapes of the
  standard. \<^verbatim>\<open>undefined\<close> has no JSON text: at top level the result is \<^verbatim>\<open>undefined\<close>
  (\<open>None\<close>), inside an array it prints as \<^verbatim>\<open>null\<close>, and a property whose value is
  \<^verbatim>\<open>undefined\<close> is left out.
\<close>

definition hex_digit :: "nat \<Rightarrow> char" where
  "hex_digit n = ''0123456789abcdef'' ! n"

definition escape_char :: "char \<Rightarrow> string" where
  "escape_char c =
     (if c = CHR 0x08 then [CHR 0x5C, CHR ''b'']
      else if c = CHR 0x09 then [CHR 0x5C, CHR ''t'']
      else if c = CHR 0x0A then [CHR 0x5C, CHR ''n'']
      else if c = CHR 0x0C then [CHR 0x5C, CHR ''f'']
      else if c = CHR 0x0D then [CHR 0x5C, CHR ''r'']
      else if c = CHR 0x22 then [CHR 0x5C, CHR 0x22]
      else if c = CHR 0x5C then [CHR 0x5C, CHR 0x5C]
      else if (of_char c :: nat) < 32 then
        [CHR 0x5C, CHR ''u'', CHR ''0'', CHR ''0'',
         hex_digit ((of_char c :: nat) div 16), hex_digit ((of_char c :: nat) mod 16)]
      else [c])"

definition quote :: "string \<Rightarrow> string" where
  "quote s = [CHR 0x22] @ concat (map escape_char s) @ [CHR 0x22]"

fun join :: "string \<Rightarrow> string list \<Rightarrow> string" where
  "join sep [] = []"
| "join sep [s] = s"
| "join sep (s # t # rest) = s @ sep @ join sep (t # rest)"

fun JSON_stringify :: "json \<Rightarrow> string option" where
  "JSON_stringify JUndefined = None"
| "JSON_stringify JNull = Some ''null''"
| "JSON_stringify (JBool b) = Some (if b then ''true'' else ''false'')"
| "JSON_stringify (JNum n) = Some n"
| "JSON_stringify (JStr s) = Some (quote s)"
| "JSON_stringify (JArr xs) =
     Some (''['' @ join '','' (map (\<lambda>x. case JSON_stringify x of None \<Rightarrow> ''null'' | Some s \<Rightarrow> s) xs) @ '']'')"
| "JSON_stringify (JObj kvs) =
     Some (''{'' @
       join '',''
         (concat (map (\<lambda>(k, v). case JSON_stringify v of
                                 None \<Rightarrow> []
                               | Some s \<Rightarrow> [quote k @ '':'' @ s]) kvs)) @
       ''}'')"


text \<open>A template literal \<^verbatim>\<open>${x}\<close> prints \<^verbatim>\<open>undefined\<close> as the word.\<close>

definition template_text :: "string option \<Rightarrow> string" where
  "template_text s = (case s of None \<Rightarrow> ''undefined'' | Some t \<Rightarrow> t)"

text \<open>
  \<^verbatim>\<open>canonQuery\<close>: \<^verbatim>\<open>queryStr.trim().replace(/\s+/g, " ").toLowerCase()\<close>. Below 256 the
  white space of JavaScript is tab, line feed, vertical tab, form feed, carriage return,
  space and no-break space; \<^verbatim>\<open>toLowerCase\<close> maps A-Z and the Latin-1 capitals (all of
  0xC0-0xDE but the multiplication sign) 32 code units up.
\<close>

definition is_whitespace :: "char \<Rightarrow> bool" where
  "is_whitespace c \<longleftrightarrow> (of_char c :: nat) \<in> {9, 10, 11, 12, 13, 32, 160}"

definition trim :: "string \<Rightarrow> string" where
  "trim s = rev (dropWhile is_whitespace (rev (dropWhile is_whitespace s)))"

definition lower_char :: "char \<Rightarrow> char" where
  "lower_char c =
     (let n = (of_char c :: nat) in
      if (65 \<le> n \<and> n \<le> 90) \<or> (192 \<le> n \<and> n \<le> 222 \<and> n \<noteq> 215) then char_of (n + 32)
      else c)"

definition toLowerCase :: "string \<Rightarrow> string" where
  "toLowerCase s = map lower_char s"

function collapse_whitespace :: "string \<Rightarrow> string" where
  "collapse_whitespace [] = []"
| "collapse_whitespace (c # cs) =
     (if is_whitespace c then CHR '' '' # collapse_whitespace (dropWhile is_whitespace cs)
      else c # collapse_whitespace cs)"
  by pat_completeness auto
termination
  by (relation "measure length") (auto simp: length_dropWhile_le less_Suc_eq_le)

definition canonQuery :: "string \<Rightarrow> string" where
  "canonQuery q = toLowerCase (collapse_whitespace (trim q))"

text \<open>
  Assignment \<^verbatim>\<open>out[k] = v\<close> to an ordinary object. JavaScript enumerates the properties
  whose names are array indices (canonical decimal numerals up to \<open>2^32 - 2\<close>) first, in
  ascending numeric order, and the other properties after them, in the order of their
  creation. Assigning to a name that is present replaces the value where it stands.
  Assigning to \<^verbatim>\<open>__proto__\<close> calls the setter inherited from \<^verbatim>\<open>Object.prototype\<close> and
  creates no property.
\<close>

definition is_digit :: "char \<Rightarrow> bool" where
  "is_digit c \<longleftrightarrow> 48 \<le> (of_char c :: nat) \<and> (of_char c :: nat) \<le> 57"

definition index_value :: "string \<Rightarrow> nat" where
  "index_value k = foldl (\<lambda>n c. 10 * n + ((of_char c :: nat) - 48)) 0 k"

definition is_array_index :: "string \<Rightarrow> bool" where
  "is_array_index k \<longleftrightarrow>
     k \<noteq> [] \<and> list_all is_digit k \<and> (k = ''0'' \<or> hd k \<noteq> CHR ''0'') \<and>
     index_value k \<le> 4294967294"

fun insert_index :: "string \<Rightarrow> json \<Rightarrow> (string \<times> json) list \<Rightarrow> (string \<times> json) list" where
  "insert_index k v [] = [(k, v)]"
| "insert_index k v (entry # rest) =
     (if is_array_index (fst entry) \<and> index_value (fst entry) < index_value k
      then entry # insert_index k v rest
      else (k, v) # entry # rest)"

definition obj_set :: "(string \<times> json) list \<Rightarrow> string \<Rightarrow> json \<Rightarrow> (string \<times> json) list" where
  "obj_set out k v =
     (if k = ''__proto__'' then out
      else if is_array_index k \<and> k \<notin> fst ` set out then insert_index k v out
      else map_set out k v)"

text \<open>
  \<^verbatim>\<open>Array.prototype.sort\<close> with a comparator is stable, and it moves \<^verbatim>\<open>undefined\<close> elements
  to the end without calling the comparator. For a comparator that is a total preorder
  the result is the one of a stable insertion sort.
\<close>

fun insert_by :: "('a \<Rightarrow> 'a \<Rightarrow> int) \<Rightarrow> 'a \<Rightarrow> 'a list \<Rightarrow> 'a list" where
  "insert_by cmp x [] = [x]"
| "insert_by cmp x (y # ys) =
     (if cmp x y \<le> 0 then x # y # ys else y # insert_by cmp x ys)"

definition sort_by :: "('a \<Rightarrow> 'a \<Rightarrow> int) \<Rightarrow> 'a list \<Rightarrow> 'a list" where
  "sort_by cmp xs = foldr (insert_by cmp) xs []"

definition array_sort :: "(json \<Rightarrow> json \<Rightarrow> int) \<Rightarrow> json list \<Rightarrow> json list" where
  "array_sort cmp xs =
     sort_by cmp (filter (\<lambda>x. x \<noteq> JUndefined) xs) @ filter (\<lambda>x. x = JUndefined) xs"

text \<open>
  The comparator \<^verbatim>\<open>(a, b) => JSON.stringify(a).localeCompare(JSON.stringify(b))\<close>.
  \<^verbatim>\<open>String.prototype.localeCompare\<close> belongs to the platform (it collates by the host's
  locale data); it is a parameter of the model, a function from two strings to a
  negative, zero or positive number. The comparator is only called on elements that are
  not \<^verbatim>\<open>undefined\<close>, which all have a JSON text.
\<close>

definition compare_serialized :: "(string \<Rightarrow> string \<Rightarrow> int) \<Rightarrow> json \<Rightarrow> json \<Rightarrow> int" where
  "compare_serialized localeCompare a b =
     localeCompare (template_text (JSON_stringify a)) (template_text (JSON_stringify b))"

text \<open>
  \<^verbatim>\<open>canonOptions\<close>. \<^verbatim>\<open>Object.keys(input).sort()\<close> sorts the property names by code units.
\<close>

lemma size_map_of:
  "map_of kvs k = Some v \<Longrightarrow> size v < Suc (size_list (size_prod (\<lambda>_. 0) size) kvs)"
  by (induction kvs) (auto split: if_splits)

function canonOptions :: "(string \<Rightarrow> string \<Rightarrow> int) \<Rightarrow> json \<Rightarrow> json" where
  "canonOptions localeCompare (JArr xs) =
     JArr (array_sort (compare_serialized localeCompare) (map (canonOptions localeCompare) xs))"
| "canonOptions localeCompare (JObj kvs) =
     JObj (foldl
       (\<lambda>out k.
          case map_of kvs k of
            None \<Rightarrow> out
          | Some v \<Rightarrow>
              if v = JUndefined \<or> v = JNull then out
              else obj_set out k (canonOptions localeCompare v))
       [] (sort (map fst kvs)))"
| "canonOptions localeCompare JUndefined = JUndefined"
| "canonOptions localeCompare JNull = JNull"
| "canonOptions localeCompare (JBool b) = JBool b"
| "canonOptions localeCompare (JNum n) = JNum n"
| "canonOptions localeCompare (JStr s) = JStr s"
  by pat_completeness auto
termination
  apply (relation "measure (\<lambda>(lc, v). size v)")
    apply simp
   apply (auto simp: less_Suc_eq_le size_list_estimation' dest: size_map_of)
  done

definition buildToolKey :: "(string \<Rightarrow> string \<Rightarrow> int) \<Rightarrow> string \<Rightarrow> string \<Rightarrow> json \<Rightarrow> string" where
  "buildToolKey localeCompare tool query opts =
     tool @ ''::'' @ canonQuery query @ ''::'' @
     template_text (JSON_stringify (canonOptions localeCompare opts))"

text \<open>A comparator to run the model with: the order of the code units.\<close>

definition code_unit_compare :: "string \<Rightarrow> string \<Rightarrow> int" where
  "code_unit_compare a b = (if a < b then -1 else if a = b then 0 else 1)"



subsection \<open>Option values that differ by key order and absent values\<close>











section \<open>The identity of a result record\<close>

text \<open>
  A record of the search API, as far as \<^verbatim>\<open>resultId\<close> and the \<^verbatim>\<open>webSearch\<close> tool read it.
  A field is absent (\<open>None\<close>) or holds a string; \<^verbatim>\<open>r.data?.nct_id\<close> and the fields under
  \<^verbatim>\<open>r.metadata?.\<close> are absent when the inner object is.
\<close>

record result_record =
  nct_id :: "string option"
  data_nct_id :: "string option"
  metadata_pmid :: "string option"
  pmid :: "string option"
  metadata_doi :: "string option"
  doi :: "string option"
  metadata_setid :: "string option"
  url :: "string option"
  title :: "string option"
  source :: "string option"
  date :: "string option"
  content :: "string option"

text \<open>
  A chain \<^verbatim>\<open>a || b || ... || final\<close> over strings and \<^verbatim>\<open>undefined\<close>: the first operand that
  is a non-empty string, or the last operand.
\<close>

fun first_truthy :: "string option list \<Rightarrow> string \<Rightarrow> string" where
  "first_truthy [] final = final"
| "first_truthy (v # vs) final =
     (case v of
        None \<Rightarrow> first_truthy vs final
      | Some s \<Rightarrow> if s \<noteq> [] then s else first_truthy vs final)"

text \<open>
  The regular expressions, matched at the leftmost position where they match:
  \<^verbatim>\<open>/arxiv\.org\/(?:abs|pdf)\/([\w.\-]+)/i\<close> and
  \<^verbatim>\<open>/10\.\d{4,9}\/[-._;()/:A-Z0-9]+/i\<close>. The digits of a DOI prefix must be followed by
  the slash at once, so a run of more than nine digits does not match.
\<close>

definition is_word_char :: "char \<Rightarrow> bool" where
  "is_word_char c \<longleftrightarrow>
     (let n = (of_char c :: nat) in
      (48 \<le> n \<and> n \<le> 57) \<or> (65 \<le> n \<and> n \<le> 90) \<or> (97 \<le> n \<and> n \<le> 122) \<or> n = 95)"

definition ascii_lower :: "char \<Rightarrow> char" where
  "ascii_lower c =
     (let n = (of_char c :: nat) in if 65 \<le> n \<and> n \<le> 90 then char_of (n + 32) else c)"

definition starts_with_ci :: "string \<Rightarrow> string \<Rightarrow> bool" where
  "starts_with_ci pat s \<longleftrightarrow> prefix pat (map ascii_lower s)"

fun first_match :: "(string \<Rightarrow> string option) \<Rightarrow> string \<Rightarrow> string option" where
  "first_match at [] = at []"
| "first_match at (c # cs) =
     (case at (c # cs) of Some m \<Rightarrow> Some m | None \<Rightarrow> first_match at cs)"

definition arxiv_at :: "string \<Rightarrow> string option" where
  "arxiv_at s =
     (if starts_with_ci ''arxiv.org/abs/'' s \<or> starts_with_ci ''arxiv.org/pdf/'' s then
        (let id = takeWhile (\<lambda>c. is_word_char c \<or> c = CHR ''.'' \<or> c = CHR ''-'') (drop 14 s)
         in if id = [] then None else Some id)
      else None)"

definition extractArxivId :: "string option \<Rightarrow> string option" where
  "extractArxivId u =
     (case u of None \<Rightarrow> None | Some s \<Rightarrow> if s = [] then None else first_match arxiv_at s)"

definition is_doi_char :: "char \<Rightarrow> bool" where
  "is_doi_char c \<longleftrightarrow> is_word_char c \<or> c \<in> set ''-.;()/:''"

definition doi_at :: "string \<Rightarrow> string option" where
  "doi_at s =
     (if prefix ''10.'' s then
        (let digits = takeWhile is_digit (drop 3 s);
             rest = drop (3 + length digits) s
         in if 4 \<le> length digits \<and> length digits \<le> 9 \<and> prefix ''/'' rest then
              (let suffix = takeWhile is_doi_char (drop 1 rest)
               in if suffix = [] then None else Some (''10.'' @ digits @ ''/'' @ suffix))
            else None)
      else None)"

definition extractDoi :: "string option \<Rightarrow> string option" where
  "extractDoi s =
     (case s of
        None \<Rightarrow> None
      | Some t \<Rightarrow> if t = [] then None else map_option toLowerCase (first_match doi_at t))"

text \<open>
  \<^verbatim>\<open>normalizeUrl\<close>. The URL parser (\<^verbatim>\<open>new URL(url)\<close>, which throws on what it cannot
  parse) and the serializer of the query parameters belong to the platform and are
  parameters of the model.
\<close>

record url_parts =
  protocol :: string
  host :: string
  pathname :: string
  searchParams :: "(string \<times> string) list"

record platform =
  parse_url :: "string \<Rightarrow> url_parts option"
  params_toString :: "(string \<times> string) list \<Rightarrow> string"

definition is_tracking_param :: "string \<Rightarrow> bool" where
  "is_tracking_param k \<longleftrightarrow> prefix ''utm_'' k \<or> k = ''ref'' \<or> k = ''ref_src''"

definition strip_trailing_slashes :: "string \<Rightarrow> string" where
  "strip_trailing_slashes p = rev (dropWhile (\<lambda>c. c = CHR ''/'') (rev p))"

definition normalizeUrl :: "platform \<Rightarrow> string option \<Rightarrow> string" where
  "normalizeUrl pf link =
     (case link of
        None \<Rightarrow> []
      | Some s \<Rightarrow>
          if s = [] then []
          else
            (case parse_url pf s of
               None \<Rightarrow> trim s
             | Some u \<Rightarrow>
                 (let qs = params_toString pf
                             (filter (\<lambda>p. \<not> is_tracking_param (fst p)) (searchParams u))
                  in protocol u @ ''//'' @ toLowerCase (host u) @
                     strip_trailing_slashes (pathname u) @
                     (if qs \<noteq> [] then ''?'' @ qs else []))))"

text \<open>
  \<^verbatim>\<open>keyToUuid\<close>: the first 16 bytes of the SHA-256 digest of the key, with the version and
  variant bits set, in the textual layout of a UUID. The digest (\<^verbatim>\<open>node:crypto\<close>) is a
  parameter.
\<close>

definition hex_byte :: "8 word \<Rightarrow> string" where
  "hex_byte b = [hex_digit (unat b div 16), hex_digit (unat b mod 16)]"

definition keyToUuid :: "(string \<Rightarrow> 8 word list) \<Rightarrow> string \<Rightarrow> string" where
  "keyToUuid sha256 key =
     (let bytes = take 16 (sha256 key);
          bytes = bytes[6 := (bytes ! 6 AND 0x0f) OR 0x40];
          bytes = bytes[8 := (bytes ! 8 AND 0x3f) OR 0x80];
          hex = concat (map hex_byte bytes)
      in take 8 hex @ ''-'' @ take 4 (drop 8 hex) @ ''-'' @ take 4 (drop 12 hex) @ ''-'' @
         take 4 (drop 16 hex) @ ''-'' @ drop 20 hex)"

text \<open>\<^verbatim>\<open>resultId\<close>: the natural key, in the order of the source, and its fingerprint.\<close>

definition or_empty :: "string option \<Rightarrow> string" where
  "or_empty v = (case v of None \<Rightarrow> [] | Some s \<Rightarrow> s)"

definition resultKey :: "platform \<Rightarrow> result_record \<Rightarrow> string" where
  "resultKey pf r =
     first_truthy
       [nct_id r, data_nct_id r, metadata_pmid r, pmid r, metadata_doi r, doi r,
        metadata_setid r, extractArxivId (url r), Some (normalizeUrl pf (url r))]
       (toLowerCase (or_empty (title r)) @ ''|'' @ toLowerCase (or_empty (source r)) @ ''|'' @
        or_empty (date r))"

definition resultId :: "(string \<Rightarrow> 8 word list) \<Rightarrow> platform \<Rightarrow> result_record \<Rightarrow> string" where
  "resultId sha256 pf r = keyToUuid sha256 (resultKey pf r)"


text \<open>
  The \<^verbatim>\<open>webSearch\<close> tool computes its own key first, from a DOI found in the URL or in the
  content, the arXiv id, or the normalized URL, and calls \<^verbatim>\<open>resultId\<close> only when all three
  are empty.
\<close>

definition webSearchKey :: "platform \<Rightarrow> result_record \<Rightarrow> string" where
  "webSearchKey pf r =
     (let doi = first_truthy [extractDoi (url r), extractDoi (Some (or_empty (content r)))] [];
          arxiv = extractArxivId (url r);
          normalized = normalizeUrl pf (url r)
      in first_truthy [Some doi, arxiv] normalized)"

definition webSearchId :: "(string \<Rightarrow> 8 word list) \<Rightarrow> platform \<Rightarrow> result_record \<Rightarrow> string" where
  "webSearchId sha256 pf r =
     (let key = webSearchKey pf r
      in if key \<noteq> [] then keyToUuid sha256 key else resultId sha256 pf r)"

text \<open>A record with no field, and a platform whose parser accepts nothing.\<close>

definition empty_record :: result_record where
  "empty_record =
     \<lparr>nct_id = None, data_nct_id = None, metadata_pmid = None, pmid = None,
      metadata_doi = None, doi = None, metadata_setid = None, url = None, title = None,
      source = None, date = None, content = None\<rparr>"

definition no_parser :: platform where
  "no_parser = \<lparr>parse_url = (\<lambda>s. None), params_toString = (\<lambda>ps. [])\<rparr>"

subsection \<open>Properties of the filter\<close>

lemma filter_seen_Cons_fst:
  "fst (filter_seen getId seen (x # xs)) =
     (if getId x = [] \<or> getId x \<in> seen then fst (filter_seen getId seen xs)
      else x # fst (filter_seen getId (insert (getId x) seen) xs))"
  by (simp add: Let_def split: prod.splits)

lemma filter_seen_ids_nonempty:
  "x \<in> set (fst (filter_seen getId seen xs)) \<Longrightarrow> getId x \<noteq> []"
proof (induction xs arbitrary: seen)
  case Nil
  then show ?case by simp
next
  case (Cons y ys)
  then show ?case
    unfolding filter_seen_Cons_fst by (auto split: if_splits)
qed

lemma filter_seen_ids_fresh:
  "x \<in> set (fst (filter_seen getId seen xs)) \<Longrightarrow> getId x \<notin> seen"
proof (induction xs arbitrary: seen)
  case Nil
  then show ?case by simp
next
  case (Cons y ys)
  show ?case
  proof (cases "getId y = [] \<or> getId y \<in> seen")
    case True
    with Cons show ?thesis unfolding filter_seen_Cons_fst by simp
  next
    case False
    with Cons.prems have "x = y \<or> x \<in> set (fst (filter_seen getId (insert (getId y) seen) ys))"
      unfolding filter_seen_Cons_fst by auto
    then show ?thesis
    proof
      assume "x = y"
      with False show ?thesis by simp
    next
      assume "x \<in> set (fst (filter_seen getId (insert (getId y) seen) ys))"
      then have "getId x \<notin> insert (getId y) seen" by (rule Cons.IH)
      then show ?thesis by simp
    qed
  qed
qed

lemma filter_seen_distinct:
  "distinct (map getId (fst (filter_seen getId seen xs)))"
proof (induction xs arbitrary: seen)
  case Nil
  then show ?case by simp
next
  case (Cons y ys)
  show ?case
  proof (cases "getId y = [] \<or> getId y \<in> seen")
    case True
    with Cons.IH show ?thesis unfolding filter_seen_Cons_fst by simp
  next
    case False
    have "\<And>z. z \<in> set (fst (filter_seen getId (insert (getId y) seen) ys)) \<Longrightarrow> getId z \<noteq> getId y"
      using filter_seen_ids_fresh [of _ getId "insert (getId y) seen" ys] by auto
    then have "getId y \<notin> getId ` set (fst (filter_seen getId (insert (getId y) seen) ys))"
      by force
    with False Cons.IH [of "insert (getId y) seen"] show ?thesis
      unfolding filter_seen_Cons_fst by simp
  qed
qed

lemma filter_seen_subseq:
  "subseq (fst (filter_seen getId seen xs)) xs"
proof (induction xs arbitrary: seen)
  case Nil
  then show ?case by simp
next
  case (Cons y ys)
  have "subseq (fst (filter_seen getId seen ys)) (y # ys)"
    using Cons.IH [of seen] by (rule list_emb_Cons)
  moreover have "subseq (y # fst (filter_seen getId (insert (getId y) seen) ys)) (y # ys)"
    using Cons.IH [of "insert (getId y) seen"] by simp
  ultimately show ?case unfolding filter_seen_Cons_fst by simp
qed

lemma filter_seen_snoc:
  "fst (filter_seen getId seen (xs @ [x])) =
     fst (filter_seen getId seen xs) @
       (if getId x \<noteq> [] \<and> getId x \<notin> seen \<and> getId x \<notin> getId ` set xs then [x] else [])"
proof (induction xs arbitrary: seen)
  case Nil
  then show ?case by (simp add: Let_def)
next
  case (Cons y ys)
  show ?case
  proof (cases "getId y = [] \<or> getId y \<in> seen")
    case True
    then show ?thesis using Cons.IH [of seen]
      unfolding append_Cons filter_seen_Cons_fst by auto
  next
    case False
    then show ?thesis using Cons.IH [of "insert (getId y) seen"]
      unfolding append_Cons filter_seen_Cons_fst by auto
  qed
qed

lemma filter_seen_index:
  "fst (filter_seen getId seen xs) =
     map (\<lambda>i. xs ! i)
       (filter (\<lambda>i. getId (xs ! i) \<noteq> [] \<and> getId (xs ! i) \<notin> seen \<and>
                     getId (xs ! i) \<notin> getId ` set (take i xs))
          [0..<length xs])"
proof (induction xs rule: rev_induct)
  case Nil
  then show ?case by simp
next
  case (snoc x xs)
  let ?P = "\<lambda>ys i. getId (ys ! i) \<noteq> [] \<and> getId (ys ! i) \<notin> seen \<and>
                  getId (ys ! i) \<notin> getId ` set (take i ys)"
  have same: "filter (?P (xs @ [x])) [0..<length xs] = filter (?P xs) [0..<length xs]"
    by (rule filter_cong) (auto simp: nth_append)
  have old: "map (\<lambda>i. (xs @ [x]) ! i) (filter (?P xs) [0..<length xs]) =
             map (\<lambda>i. xs ! i) (filter (?P xs) [0..<length xs])"
    by (rule map_cong) (auto simp: nth_append)
  have last: "map (\<lambda>i. (xs @ [x]) ! i) (filter (?P (xs @ [x])) [length xs]) =
              (if getId x \<noteq> [] \<and> getId x \<notin> seen \<and> getId x \<notin> getId ` set xs then [x] else [])"
    by simp
  have "map (\<lambda>i. (xs @ [x]) ! i) (filter (?P (xs @ [x])) [0..<length (xs @ [x])]) =
        map (\<lambda>i. (xs @ [x]) ! i) (filter (?P (xs @ [x])) [0..<length xs]) @
        map (\<lambda>i. (xs @ [x]) ! i) (filter (?P (xs @ [x])) [length xs])"
    by simp
  also have "\<dots> = map (\<lambda>i. xs ! i) (filter (?P xs) [0..<length xs]) @
        (if getId x \<noteq> [] \<and> getId x \<notin> seen \<and> getId x \<notin> getId ` set xs then [x] else [])"
    unfolding same old last ..
  also have "\<dots> = fst (filter_seen getId seen (xs @ [x]))"
    unfolding filter_seen_snoc snoc.IH ..
  finally show ?case by (rule sym)
qed

subsection \<open>The claims on deduplication\<close>

text \<open>
  C9. With an absent request id (\<^verbatim>\<open>undefined\<close> or the empty string) \<^verbatim>\<open>dedupeAgainstRequest\<close>
  returns its input list as it is, drops no record, and leaves the process-wide map of
  seen-sets as it was, whatever the list and the id function are.
\<close>

theorem dedupeAgainstRequest_absent_passthrough:
  "requestId = None \<or> requestId = Some [] \<Longrightarrow>
   dedupeAgainstRequest seenByRequest requestId items getId = (items, seenByRequest)"
  by (auto simp: dedupeAgainstRequest_def)

theorem dedupeAgainstRequest_absent_passthrough_witness:
  "((None :: string option) = None \<or> (None :: string option) = Some []) \<and>
   dedupeAgainstRequest (Map.empty(''req-1'' \<mapsto> {''a''})) None [''a'', [], ''a'', ''b''] (\<lambda>x. x)
     = ([''a'', [], ''a'', ''b''], Map.empty(''req-1'' \<mapsto> {''a''}))"
proof -
  have h: "(None :: string option) = None \<or> (None :: string option) = Some []" by simp
  show ?thesis
    using h dedupeAgainstRequest_absent_passthrough
            [OF h, of "Map.empty(''req-1'' \<mapsto> {''a''})" "[''a'', [], ''a'', ''b'']" "\<lambda>x. x"]
    by simp
qed

text \<open>
  C10. \<^verbatim>\<open>dedupeBy\<close> never lets a record with a falsy (empty) id through, not even its first
  occurrence; the ids of the survivors are pairwise distinct; the survivors are a
  subsequence of the input, so they keep their order; and the record at position \<open>i\<close>
  survives exactly when its id is not empty and no earlier record has the same id.
  With a request id present, \<^verbatim>\<open>dedupeAgainstRequest\<close> drops the records with an empty id
  in the same way.
\<close>

theorem dedupeBy_drops_falsy_keeps_first:
  "(\<forall>x \<in> set (dedupeBy arr getId). getId x \<noteq> []) \<and>
   distinct (map getId (dedupeBy arr getId)) \<and>
   subseq (dedupeBy arr getId) arr \<and>
   dedupeBy arr getId =
     map (\<lambda>i. arr ! i)
       (filter (\<lambda>i. getId (arr ! i) \<noteq> [] \<and> getId (arr ! i) \<notin> getId ` set (take i arr))
          [0..<length arr]) \<and>
   (\<forall>x \<in> set (fst (dedupeAgainstRequest seenByRequest (Some (c # rid)) items getId)).
      getId x \<noteq> [])"
proof (intro conjI ballI)
  fix x assume "x \<in> set (dedupeBy arr getId)"
  then show "getId x \<noteq> []"
    unfolding dedupeBy_def by (rule filter_seen_ids_nonempty)
next
  show "distinct (map getId (dedupeBy arr getId))"
    unfolding dedupeBy_def by (rule filter_seen_distinct)
next
  show "subseq (dedupeBy arr getId) arr"
    unfolding dedupeBy_def by (rule filter_seen_subseq)
next
  show "dedupeBy arr getId =
     map (\<lambda>i. arr ! i)
       (filter (\<lambda>i. getId (arr ! i) \<noteq> [] \<and> getId (arr ! i) \<notin> getId ` set (take i arr))
          [0..<length arr])"
    unfolding dedupeBy_def filter_seen_index [of getId "{}" arr] by simp
next
  fix x
  assume "x \<in> set (fst (dedupeAgainstRequest seenByRequest (Some (c # rid)) items getId))"
  then have "x \<in> set (fst (filter_seen getId
      (case seenByRequest (c # rid) of None \<Rightarrow> {} | Some b \<Rightarrow> b) items))"
    by (simp add: dedupeAgainstRequest_def Let_def split: prod.splits)
  then show "getId x \<noteq> []" by (rule filter_seen_ids_nonempty)
qed

theorem dedupeBy_drops_falsy_keeps_first_witness:
  "dedupeBy [[], ''a'', ''b'', ''a'', [], ''c'', ''b''] (\<lambda>x. x) = [''a'', ''b'', ''c''] \<and>
   distinct (map (\<lambda>x. x) (dedupeBy [[], ''a'', ''b'', ''a'', [], ''c'', ''b''] (\<lambda>x. x))) \<and>
   subseq (dedupeBy [[], ''a'', ''b'', ''a'', [], ''c'', ''b''] (\<lambda>x. x))
     [[], ''a'', ''b'', ''a'', [], ''c'', ''b''] \<and>
   fst (dedupeAgainstRequest Map.empty (Some ''r'') [[], ''a'', [], ''a''] (\<lambda>x. x)) = [''a'']"
proof -
  have kept: "dedupeBy [[], ''a'', ''b'', ''a'', [], ''c'', ''b''] (\<lambda>x. x) = [''a'', ''b'', ''c'']"
    by (simp add: dedupeBy_def Let_def)
  have req: "fst (dedupeAgainstRequest Map.empty (Some ''r'') [[], ''a'', [], ''a''] (\<lambda>x. x)) = [''a'']"
    by (simp add: dedupeAgainstRequest_def Let_def)
  have "distinct (map (\<lambda>x. x) (dedupeBy [[], ''a'', ''b'', ''a'', [], ''c'', ''b''] (\<lambda>x. x))) \<and>
        subseq (dedupeBy [[], ''a'', ''b'', ''a'', [], ''c'', ''b''] (\<lambda>x. x))
          [[], ''a'', ''b'', ''a'', [], ''c'', ''b'']"
    using dedupeBy_drops_falsy_keeps_first
            [of "[[], ''a'', ''b'', ''a'', [], ''c'', ''b'']" "\<lambda>x. x"]
    by blast
  with kept req show ?thesis by blast
qed

section \<open>The claims on the retrying wrapper\<close>

lemma includes_iff: "str_includes s sub \<longleftrightarrow> (\<exists>pre post. s = pre @ sub @ post)"
proof (induction s)
  case Nil
  then show ?case by auto
next
  case (Cons c cs)
  show ?case
  proof
    assume "str_includes (c # cs) sub"
    then consider "prefix sub (c # cs)" | "str_includes cs sub" by auto
    then show "\<exists>pre post. c # cs = pre @ sub @ post"
    proof cases
      case 1
      then obtain post where "c # cs = sub @ post" by (auto simp: prefix_def)
      then have "c # cs = [] @ sub @ post" by simp
      then show ?thesis by blast
    next
      case 2
      with Cons.IH obtain pre post where "cs = pre @ sub @ post" by blast
      then have "c # cs = (c # pre) @ sub @ post" by simp
      then show ?thesis by blast
    qed
  next
    assume "\<exists>pre post. c # cs = pre @ sub @ post"
    then obtain pre post where eq: "c # cs = pre @ sub @ post" by blast
    show "str_includes (c # cs) sub"
    proof (cases pre)
      case Nil
      with eq have "prefix sub (c # cs)" by (simp add: prefix_def)
      then show ?thesis by simp
    next
      case (Cons p ps)
      with eq have "cs = ps @ sub @ post" by simp
      with Cons.IH have "str_includes cs sub" by blast
      then show ?thesis by simp
    qed
  qed
qed

lemma timeout_error_retryable:
  "retryable (Error (''Request timeout after '' @ show_nat timeoutMs @ ''ms''))"
proof -
  have "''Request timeout after '' @ show_nat timeoutMs @ ''ms'' =
        ''Request '' @ ''timeout'' @ ('' after '' @ show_nat timeoutMs @ ''ms'')"
    by simp
  then have "str_includes (''Request timeout after '' @ show_nat timeoutMs @ ''ms'') ''timeout''"
    unfolding includes_iff by blast
  then show ?thesis by (simp only: retryable_def js_error.sel simp_thms)
qed

text \<open>
  C4. When every invocation of the search rejects with an error whose message contains
  \<^verbatim>\<open>ETIMEDOUT\<close>, the wrapper with \<^verbatim>\<open>maxRetries = 2\<close> invokes the search exactly three
  times, sleeps \<open>2^0\<close> seconds between the first and the second invocation and \<open>2^1\<close>
  seconds between the second and the third, and throws the error of the third
  invocation, the last one it saw.
\<close>

theorem callValyuWithTimeout_etimedout_three_attempts:
  assumes "\<forall>n. search n = Rejected (err n)"
    and "\<forall>n. str_includes (message (err n)) ''ETIMEDOUT''"
  shows "callValyuWithTimeout search timeoutMs 2 =
           (Inl (err 2), [Search 0, Sleep 1000, Search 1, Sleep 2000, Search 2]) \<and>
         invocations (snd (callValyuWithTimeout search timeoutMs 2)) = 3"
proof -
  have r: "retryable (err n)" for n
    using assms(2) by (simp add: retryable_def)
  have s: "race timeoutMs (search n) = Inl (err n)" for n
    using assms(1) by (simp add: race_def)
  have two: "Suc (Suc 0) = 2" by simp
  have third: "retry_loop search timeoutMs 2 (Suc (Suc 0)) lastError = (Inl (err 2), [Search 2])"
    for lastError
    unfolding two by (subst retry_loop.simps) (simp add: s)
  have second: "retry_loop search timeoutMs 2 (Suc 0) lastError =
                  (Inl (err 2), [Search 1, Sleep 2000, Search 2])" for lastError
    by (subst retry_loop.simps) (simp add: s r third)
  have first: "retry_loop search timeoutMs 2 0 None =
                 (Inl (err 2), [Search 0, Sleep 1000, Search 1, Sleep 2000, Search 2])"
    by (subst retry_loop.simps) (simp add: s r second)
  then show ?thesis
    by (simp add: callValyuWithTimeout_def invocations_def)
qed

theorem callValyuWithTimeout_etimedout_three_attempts_witness:
  "callValyuWithTimeout (\<lambda>n. (Rejected (Error ''connect ETIMEDOUT 10.0.0.1:443'') :: unit attempt))
       30000 2 =
     (Inl (Error ''connect ETIMEDOUT 10.0.0.1:443''),
      [Search 0, Sleep 1000, Search 1, Sleep 2000, Search 2])"
proof -
  have inc: "str_includes ''connect ETIMEDOUT 10.0.0.1:443'' ''ETIMEDOUT''"
    by simp
  show ?thesis
    using callValyuWithTimeout_etimedout_three_attempts
      [of "\<lambda>n. (Rejected (Error ''connect ETIMEDOUT 10.0.0.1:443'') :: unit attempt)"
          "\<lambda>n. Error ''connect ETIMEDOUT 10.0.0.1:443''" 30000]
      inc
    by simp
qed

text \<open>
  C5. When the first invocation of the search rejects with an error whose message contains
  none of \<^verbatim>\<open>timeout\<close>, \<^verbatim>\<open>ECONNRESET\<close>, \<^verbatim>\<open>ENOTFOUND\<close>, \<^verbatim>\<open>ETIMEDOUT\<close>, the wrapper invokes the
  search exactly once, does not sleep, and throws that same error, whatever the number
  of retries allowed.
\<close>

theorem callValyuWithTimeout_non_retryable_once:
  assumes "search 0 = Rejected e"
    and "\<not> str_includes (message e) ''timeout''"
    and "\<not> str_includes (message e) ''ECONNRESET''"
    and "\<not> str_includes (message e) ''ENOTFOUND''"
    and "\<not> str_includes (message e) ''ETIMEDOUT''"
  shows "callValyuWithTimeout search timeoutMs maxRetries = (Inl e, [Search 0]) \<and>
         invocations (snd (callValyuWithTimeout search timeoutMs maxRetries)) = 1"
proof -
  have "\<not> retryable e"
    using assms(2-5) by (simp add: retryable_def)
  moreover have "race timeoutMs (search 0) = Inl e"
    using assms(1) by (simp add: race_def)
  ultimately have "retry_loop search timeoutMs maxRetries 0 None = (Inl e, [Search 0])"
    by (subst retry_loop.simps) simp
  then show ?thesis
    by (simp add: callValyuWithTimeout_def invocations_def)
qed

theorem callValyuWithTimeout_non_retryable_once_witness:
  "callValyuWithTimeout (\<lambda>n. (Rejected (Error ''401 unauthorized'') :: unit attempt)) 30000 2 =
     (Inl (Error ''401 unauthorized''), [Search 0]) \<and>
   callValyuWithTimeout (\<lambda>n. (Rejected (Error ''429 Too Many Requests'') :: unit attempt)) 30000 2 =
     (Inl (Error ''429 Too Many Requests''), [Search 0])"
proof -
  have a: "\<not> str_includes ''401 unauthorized'' ''timeout''" "\<not> str_includes ''401 unauthorized'' ''ECONNRESET''"
    "\<not> str_includes ''401 unauthorized'' ''ENOTFOUND''" "\<not> str_includes ''401 unauthorized'' ''ETIMEDOUT''"
    by simp_all
  have b: "\<not> str_includes ''429 Too Many Requests'' ''timeout''"
    "\<not> str_includes ''429 Too Many Requests'' ''ECONNRESET''"
    "\<not> str_includes ''429 Too Many Requests'' ''ENOTFOUND''"
    "\<not> str_includes ''429 Too Many Requests'' ''ETIMEDOUT''"
    by simp_all
  show ?thesis
    using callValyuWithTimeout_non_retryable_once
            [of "\<lambda>n. (Rejected (Error ''401 unauthorized'') :: unit attempt)"
                "Error ''401 unauthorized''" 30000 2]
          callValyuWithTimeout_non_retryable_once
            [of "\<lambda>n. (Rejected (Error ''429 Too Many Requests'') :: unit attempt)"
                "Error ''429 Too Many Requests''" 30000 2]
          a b
    by simp
qed

section \<open>The claims on the per-session memo\<close>

lemma map_set_fresh:
  "key \<notin> fst ` set bag \<Longrightarrow> map_set bag key value = bag @ [(key, value)]"
  by (induction bag) auto

lemma map_set_length_le: "length (map_set bag key value) \<le> Suc (length bag)"
  by (induction bag) auto

lemma map_set_present_length:
  "key \<in> fst ` set bag \<Longrightarrow> length (map_set bag key value) = length bag"
  by (induction bag) force+

lemma map_set_keys:
  "fst ` set (map_set bag key value) = insert key (fst ` set bag)"
proof (induction bag)
  case Nil
  then show ?case by simp
next
  case (Cons entry rest)
  obtain k v where e: "entry = (k, v)" by (cases entry)
  show ?case using Cons.IH unfolding e by (cases "k = key") auto
qed

lemma map_set_distinct:
  "distinct (map fst bag) \<Longrightarrow> distinct (map fst (map_set bag key value))"
proof (induction bag)
  case Nil
  then show ?case by simp
next
  case (Cons entry rest)
  obtain k v where e: "entry = (k, v)" by (cases entry)
  show ?case
  proof (cases "k = key")
    case True
    with Cons.prems show ?thesis unfolding e by simp
  next
    case False
    have "k \<notin> fst ` set (map_set rest key value)"
      using Cons.prems False unfolding e map_set_keys by simp
    with Cons False show ?thesis unfolding e by simp
  qed
qed

lemma map_of_map_set:
  "map_of (map_set bag key value) k = (if k = key then Some value else map_of bag k)"
  by (induction bag) auto

lemma map_delete_first:
  "distinct (map fst (entry # rest)) \<Longrightarrow> map_delete (entry # rest) (fst entry) = rest"
proof -
  assume "distinct (map fst (entry # rest))"
  then have "\<forall>x \<in> set rest. fst x \<noteq> fst entry" by (auto simp: image_iff)
  then have "filter (\<lambda>x. fst x \<noteq> fst entry) rest = rest" by (simp add: filter_id_conv)
  then show ?thesis by (simp add: map_delete_def)
qed

text \<open>Below capacity nothing is evicted.\<close>

lemma memo_store_below_capacity:
  "length bag < SESSION_MEMO_MAX_KEYS \<Longrightarrow> memo_store bag key value = map_set bag key value"
  by (simp add: memo_store_def)

text \<open>
  At capacity, with a non-empty oldest key, a new key evicts the oldest entry and only
  that one; the other entries keep their values and their order, and the new entry is
  the youngest.
\<close>

lemma memo_store_evicts_oldest:
  assumes "distinct (map fst (entry # rest))"
    and "length (entry # rest) \<ge> SESSION_MEMO_MAX_KEYS"
    and "fst entry \<noteq> []"
    and "key \<notin> fst ` set (entry # rest)"
  shows "memo_store (entry # rest) key value = rest @ [(key, value)]"
proof -
  have "map_delete (entry # rest) (fst entry) = rest"
    using assms(1) by (rule map_delete_first)
  moreover have "key \<notin> fst ` set rest" using assms(4) by simp
  ultimately show ?thesis
    using assms(2,3) by (simp add: memo_store_def map_first_key_def map_set_fresh)
qed

text \<open>
  With non-empty keys the bound of 200 entries is an invariant of the store, whether
  the key is new or present.
\<close>

lemma memo_store_bounded:
  assumes "length bag \<le> SESSION_MEMO_MAX_KEYS"
    and "distinct (map fst bag)"
    and "[] \<notin> fst ` set bag"
  shows "length (memo_store bag key value) \<le> SESSION_MEMO_MAX_KEYS"
proof (cases "length bag < SESSION_MEMO_MAX_KEYS")
  case True
  then show ?thesis
    using map_set_length_le [of bag key "value"] by (simp add: memo_store_below_capacity)
next
  case False
  with assms(1) have full: "length bag = SESSION_MEMO_MAX_KEYS" by simp
  then obtain entry rest where bag: "bag = entry # rest"
    by (cases bag) (auto simp: SESSION_MEMO_MAX_KEYS_def)
  have ne: "fst entry \<noteq> []" using assms(3) bag by auto
  have del: "map_delete bag (fst entry) = rest"
    using assms(2) unfolding bag by (rule map_delete_first)
  have "memo_store bag key value = map_set rest key value"
    using full ne del by (simp add: memo_store_def map_first_key_def bag)
  moreover have "length (map_set rest key value) \<le> Suc (length rest)"
    by (rule map_set_length_le)
  ultimately show ?thesis using full bag by simp
qed

lemma memo_store_cases:
  "memo_store bag key value = map_set bag key value \<or>
   (\<exists>k. memo_store bag key value = map_set (map_delete bag k) key value)"
  by (auto simp: memo_store_def split: option.splits)

lemma memo_store_keys_nonempty:
  assumes "[] \<notin> fst ` set bag" and "key \<noteq> []"
  shows "[] \<notin> fst ` set (memo_store bag key value)"
proof -
  have sub: "fst ` set (map_delete bag k) \<subseteq> fst ` set bag" for k
    by (auto simp: map_delete_def)
  from memo_store_cases [of bag key "value"] show ?thesis
  proof
    assume "memo_store bag key value = map_set bag key value"
    then show ?thesis using assms by (simp add: map_set_keys)
  next
    assume "\<exists>k. memo_store bag key value = map_set (map_delete bag k) key value"
    then obtain k where "memo_store bag key value = map_set (map_delete bag k) key value" ..
    then show ?thesis using assms sub [of k] by (auto simp: map_set_keys)
  qed
qed

lemma memo_store_distinct:
  assumes "distinct (map fst bag)"
  shows "distinct (map fst (memo_store bag key value))"
proof -
  have del: "distinct (map fst (map_delete bag k))" for k
    using assms by (simp add: map_delete_def distinct_map_filter)
  from memo_store_cases [of bag key "value"] show ?thesis
  proof
    assume "memo_store bag key value = map_set bag key value"
    then show ?thesis using assms by (simp add: map_set_distinct)
  next
    assume "\<exists>k. memo_store bag key value = map_set (map_delete bag k) key value"
    then obtain k where "memo_store bag key value = map_set (map_delete bag k) key value" ..
    then show ?thesis using del [of k] by (simp add: map_set_distinct)
  qed
qed

text \<open>Reads: a hit returns the cached value and leaves the memo as it is.\<close>

lemma withSessionMemo_hit:
  assumes "cached_value memoBySession sessionId key = Some v"
  shows "withSessionMemo sessionId key run (memoBySession, world) = (Inr v, (memoBySession, world))"
  using assms
  by (auto simp: withSessionMemo_def cached_value_def Let_def split: option.splits if_splits)

lemma cached_value_bag_created:
  "cached_value (case memoBySession sid of None \<Rightarrow> memoBySession(sid \<mapsto> []) | Some x \<Rightarrow> memoBySession) s k =
   cached_value memoBySession s k"
  by (auto simp: cached_value_def split: option.splits)

text \<open>
  C3. When the key is not cached for the session and \<^verbatim>\<open>run\<close> rejects, the error comes back
  to the caller, the world is the one \<^verbatim>\<open>run\<close> left, and no session has anything cached
  that it did not have before (only a successful result is ever stored). A second call
  with the same session id and key therefore invokes its \<^verbatim>\<open>run\<close> again: its outcome and
  its effect on the world are those of running \<^verbatim>\<open>run2\<close> in the world the first call left.
\<close>

theorem withSessionMemo_failure_not_cached:
  assumes miss: "cached_value memoBySession sessionId key = None"
    and fails: "run world = (Inl e, world1)"
  shows "fst (withSessionMemo sessionId key run (memoBySession, world)) = Inl e \<and>
         snd (snd (withSessionMemo sessionId key run (memoBySession, world))) = world1 \<and>
         cached_value (fst (snd (withSessionMemo sessionId key run (memoBySession, world)))) s k =
           cached_value memoBySession s k \<and>
         fst (withSessionMemo sessionId key run2
                (snd (withSessionMemo sessionId key run (memoBySession, world)))) =
           fst (run2 world1) \<and>
         snd (snd (withSessionMemo sessionId key run2
                (snd (withSessionMemo sessionId key run (memoBySession, world))))) =
           snd (run2 world1)"
proof (cases "sessionId = None \<or> sessionId = Some []")
  case True
  then show ?thesis
    using fails by (auto simp: withSessionMemo_def split: prod.splits)
next
  case False
  then obtain sid where sid: "sessionId = Some sid" "sid \<noteq> []" by auto
  define memo1 where
    "memo1 = (case memoBySession sid of None \<Rightarrow> memoBySession(sid \<mapsto> []) | Some x \<Rightarrow> memoBySession)"
  define bag where "bag = (case memoBySession sid of None \<Rightarrow> [] | Some b \<Rightarrow> b)"
  have nohit: "map_of bag key = None"
    using miss sid by (auto simp: cached_value_def bag_def split: option.splits)
  have first: "withSessionMemo sessionId key run (memoBySession, world) = (Inl e, (memo1, world1))"
    using sid nohit fails
    by (simp add: withSessionMemo_def Let_def memo1_def [symmetric] bag_def [symmetric])
  have m1: "memo1 sid = Some bag"
    by (auto simp: memo1_def bag_def split: option.splits)
  have second: "withSessionMemo sessionId key run2 (memo1, world1) =
      (case run2 world1 of
         (Inl error, world') \<Rightarrow> (Inl error, (memo1, world'))
       | (Inr value, world') \<Rightarrow> (Inr value, (memo1(sid \<mapsto> memo_store bag key value), world')))"
    using sid nohit m1 by (auto simp add: withSessionMemo_def Let_def split: prod.splits sum.splits)
  have same: "cached_value memo1 s k = cached_value memoBySession s k"
    unfolding memo1_def by (rule cached_value_bag_created)
  show ?thesis
    unfolding first using same second
    by (auto split: prod.splits sum.splits)
qed


theorem withSessionMemo_failure_not_cached_witness:
  "cached_value (Map.empty :: nat memo_by_session) (Some ''s1'') ''k'' = None \<and>
   fst (withSessionMemo (Some ''s1'') ''k'' (\<lambda>n. (Inl (Error ''boom''), Suc n))
          (Map.empty :: nat memo_by_session, 0 :: nat)) = Inl (Error ''boom'') \<and>
   snd (snd (withSessionMemo (Some ''s1'') ''k'' (\<lambda>n. (Inl (Error ''boom''), Suc n))
     (snd (withSessionMemo (Some ''s1'') ''k'' (\<lambda>n. (Inl (Error ''boom''), Suc n))
        (Map.empty :: nat memo_by_session, 0 :: nat))))) = 2"
proof -
  have miss: "cached_value (Map.empty :: nat memo_by_session) (Some ''s1'') ''k'' = None"
    by (simp add: cached_value_def)
  have fails: "(\<lambda>n. (Inl (Error ''boom'') :: js_error + nat, Suc n)) (0 :: nat) =
                 (Inl (Error ''boom''), Suc 0)"
    by simp
  show ?thesis
    using miss withSessionMemo_failure_not_cached
      [where run = "\<lambda>n. (Inl (Error ''boom''), Suc n)" and world = "0 :: nat"
         and ?run2.0 = "\<lambda>n. (Inl (Error ''boom''), Suc n)", OF miss fails]
    by simp
qed

text \<open>The one-step call is the two parts with \<^verbatim>\<open>run\<close> between them.\<close>

lemma withSessionMemo_phases:
  assumes "sid \<noteq> []"
  shows "withSessionMemo (Some sid) key run (memoBySession, world) =
     (case memo_begin sid key memoBySession of
        (Some cached, memo1) \<Rightarrow> (Inr cached, (memo1, world))
      | (None, memo1) \<Rightarrow>
          (case run world of
             (Inl error, world') \<Rightarrow> (Inl error, (memo1, world'))
           | (Inr value, world') \<Rightarrow> (Inr value, (memo_finish sid key value memo1, world'))))"
  using assms
  by (auto simp: withSessionMemo_def memo_begin_def memo_finish_def Let_def
      split: option.splits prod.splits sum.splits)

text \<open>
  A session at capacity, and two overlapping calls. The keys are those that the
  \<^verbatim>\<open>webSearch\<close> tool builds with \<^verbatim>\<open>buildToolKey\<close> for the queries \<^verbatim>\<open>q\<close>, \<^verbatim>\<open>qq\<close>, and so on
  (its options are always \<^verbatim>\<open>{searchType: "all"}\<close>); \<open>demo_call\<close> is one whole call of
  \<^verbatim>\<open>withSessionMemo\<close> for the session \<^verbatim>\<open>s\<close> whose \<^verbatim>\<open>run\<close> resolves.
\<close>

definition demo_query :: "nat \<Rightarrow> string" where
  "demo_query i = replicate (Suc i) CHR ''q''"

definition demo_key :: "nat \<Rightarrow> string" where
  "demo_key i =
     buildToolKey code_unit_compare ''webSearch'' (demo_query i) (JObj [(''searchType'', JStr ''all'')])"

definition demo_call :: "nat memo_by_session \<times> unit \<Rightarrow> nat \<Rightarrow> nat memo_by_session \<times> unit" where
  "demo_call state i =
     snd (withSessionMemo (Some ''s'') (demo_key i) (\<lambda>world. (Inr i, world)) state)"

lemma collapse_whitespace_id:
  "\<forall>c \<in> set s. \<not> is_whitespace c \<Longrightarrow> collapse_whitespace s = s"
  by (induction s) auto

lemma dropWhile_none: "\<forall>c \<in> set s. \<not> P c \<Longrightarrow> dropWhile P s = s"
  by (cases s) auto

lemma trim_id: "\<forall>c \<in> set s. \<not> is_whitespace c \<Longrightarrow> trim s = s"
  by (simp add: trim_def dropWhile_none)

lemma canonQuery_demo_query: "canonQuery (demo_query i) = demo_query i"
proof -
  have q: "\<not> is_whitespace CHR ''q''" by (simp add: is_whitespace_def)
  have t: "trim (demo_query i) = demo_query i"
    using q by (intro trim_id) (auto simp: demo_query_def)
  have c: "collapse_whitespace (demo_query i) = demo_query i"
    using q by (intro collapse_whitespace_id) (auto simp: demo_query_def)
  have l: "lower_char CHR ''q'' = CHR ''q''" by (simp add: lower_char_def)
  show ?thesis
    unfolding canonQuery_def t c by (simp add: toLowerCase_def demo_query_def l)
qed

lemma demo_key_shape:
  "demo_key i = ''webSearch::'' @ replicate (Suc i) CHR ''q'' @
     ''::'' @ template_text (JSON_stringify (canonOptions code_unit_compare (JObj [(''searchType'', JStr ''all'')])))"
  by (simp add: demo_key_def buildToolKey_def canonQuery_demo_query) (simp add: demo_query_def)

lemma demo_key_inj: "demo_key i = demo_key j \<longleftrightarrow> i = j"
proof
  assume "demo_key i = demo_key j"
  then have "length (demo_key i) = length (demo_key j)" by simp
  then show "i = j" unfolding demo_key_shape by simp
qed simp

lemma demo_key_nonempty: "demo_key i \<noteq> []"
  unfolding demo_key_shape by simp


definition demo_bag :: "nat \<Rightarrow> nat \<Rightarrow> nat bag" where
  "demo_bag a b = map (\<lambda>i. (demo_key i, i)) [a..<b]"

lemma demo_bag_keys: "fst ` set (demo_bag a b) = demo_key ` {a..<b}"
  by (simp add: demo_bag_def image_image)

lemma demo_bag_distinct: "distinct (map fst (demo_bag a b))"
  by (simp add: demo_bag_def distinct_map comp_def inj_on_def demo_key_inj)

lemma demo_bag_length: "length (demo_bag a b) = b - a"
  by (simp add: demo_bag_def)

lemma demo_bag_snoc: "a \<le> b \<Longrightarrow> demo_bag a b @ [(demo_key b, b)] = demo_bag a (Suc b)"
  by (simp add: demo_bag_def)

lemma demo_bag_Cons: "a < b \<Longrightarrow> demo_bag a b = (demo_key a, a) # demo_bag (Suc a) b"
  by (simp add: demo_bag_def upt_conv_Cons)

lemma demo_key_fresh: "demo_key b \<notin> fst ` set (demo_bag a b)"
  by (auto simp: demo_bag_keys demo_key_inj)

lemma demo_call_first:
  "demo_call (Map.empty, ()) 0 = (Map.empty(''s'' \<mapsto> demo_bag 0 (Suc 0)), ())"
  by (simp add: demo_call_def withSessionMemo_def Let_def memo_store_def
      SESSION_MEMO_MAX_KEYS_def demo_bag_def)

lemma demo_call_step:
  assumes "n < 200"
  shows "demo_call (Map.empty(''s'' \<mapsto> demo_bag 0 n), ()) n =
         (Map.empty(''s'' \<mapsto> demo_bag 0 (Suc n)), ())"
proof -
  have nohit: "map_of (demo_bag 0 n) (demo_key n) = None"
    using demo_key_fresh [of n 0] by (simp add: map_of_eq_None_iff)
  have "memo_store (demo_bag 0 n) (demo_key n) n = map_set (demo_bag 0 n) (demo_key n) n"
    using assms by (intro memo_store_below_capacity)
      (simp add: demo_bag_length SESSION_MEMO_MAX_KEYS_def)
  also have "\<dots> = demo_bag 0 n @ [(demo_key n, n)]"
    using demo_key_fresh by (rule map_set_fresh)
  finally have store: "memo_store (demo_bag 0 n) (demo_key n) n = demo_bag 0 (Suc n)"
    by (simp add: demo_bag_snoc)
  show ?thesis
    using nohit store by (simp add: demo_call_def withSessionMemo_def Let_def)
qed

lemma demo_calls:
  "n < 200 \<Longrightarrow>
   foldl demo_call (Map.empty, ()) [0..<Suc n] = (Map.empty(''s'' \<mapsto> demo_bag 0 (Suc n)), ())"
proof (induction n)
  case 0
  have "foldl demo_call (Map.empty, ()) [0..<Suc 0] = demo_call (Map.empty, ()) 0" by simp
  then show ?case unfolding demo_call_first .
next
  case (Suc n)
  from Suc.prems have "n < 200" by simp
  then have IH: "foldl demo_call (Map.empty, ()) [0..<Suc n] =
     (Map.empty(''s'' \<mapsto> demo_bag 0 (Suc n)), ())"
    by (rule Suc.IH)
  have "foldl demo_call (Map.empty, ()) [0..<Suc (Suc n)] =
        demo_call (foldl demo_call (Map.empty, ()) [0..<Suc n]) (Suc n)"
    by simp
  also have "\<dots> = demo_call (Map.empty(''s'' \<mapsto> demo_bag 0 (Suc n)), ()) (Suc n)"
    by (simp only: IH)
  also have "\<dots> = (Map.empty(''s'' \<mapsto> demo_bag 0 (Suc (Suc n))), ())"
    using Suc.prems by (rule demo_call_step)
  finally show ?case .
qed

lemma map_set_last:
  "key \<notin> fst ` set bag \<Longrightarrow> map_set (bag @ [(key, old)]) key value = bag @ [(key, value)]"
  by (induction bag) auto

lemma demo_first_store:
  "memo_store (demo_bag 0 200) (demo_key 200) 200 = demo_bag (Suc 0) 201"
proof -
  have c0: "demo_bag 0 200 = (demo_key 0, 0) # demo_bag (Suc 0) 200"
    by (rule demo_bag_Cons) simp
  have grow: "demo_bag (Suc 0) 200 @ [(demo_key 200, 200)] = demo_bag (Suc 0) (Suc 200)"
    by (rule demo_bag_snoc) simp
  have "memo_store ((demo_key 0, 0) # demo_bag (Suc 0) 200) (demo_key 200) 200 =
        demo_bag (Suc 0) 200 @ [(demo_key 200, 200)]"
  proof (rule memo_store_evicts_oldest)
    show "distinct (map fst ((demo_key 0, 0) # demo_bag (Suc 0) 200))"
      using demo_bag_distinct [of 0 200] unfolding c0 .
    show "SESSION_MEMO_MAX_KEYS \<le> length ((demo_key 0, 0) # demo_bag (Suc 0) 200)"
      by (simp add: demo_bag_length SESSION_MEMO_MAX_KEYS_def)
    show "fst (demo_key 0, 0::nat) \<noteq> []" by (simp add: demo_key_nonempty)
    show "demo_key 200 \<notin> fst ` set ((demo_key 0, 0) # demo_bag (Suc 0) 200)"
      using demo_key_fresh [of 200 0] unfolding c0 .
  qed
  then have "memo_store (demo_bag 0 200) (demo_key 200) 200 = demo_bag (Suc 0) (Suc 200)"
    unfolding c0 grow .
  moreover have "Suc 200 = 201" by simp
  ultimately show ?thesis by (simp only:)
qed

lemma demo_second_store:
  "memo_store (demo_bag (Suc 0) 201) (demo_key 200) 200 = demo_bag (Suc (Suc 0)) 201"
proof -
  have split: "demo_bag (Suc 0) 201 = (demo_key (Suc 0), Suc 0) # demo_bag (Suc (Suc 0)) 201"
    by (rule demo_bag_Cons) simp
  have d: "distinct (map fst ((demo_key (Suc 0), Suc 0) # demo_bag (Suc (Suc 0)) 201))"
    using demo_bag_distinct [of "Suc 0" 201] unfolding split .
  have del: "map_delete ((demo_key (Suc 0), Suc 0) # demo_bag (Suc (Suc 0)) 201) (demo_key (Suc 0)) =
             demo_bag (Suc (Suc 0)) 201"
    using map_delete_first [OF d] by simp
  have "demo_bag (Suc (Suc 0)) 200 @ [(demo_key 200, 200)] = demo_bag (Suc (Suc 0)) (Suc 200)"
    by (rule demo_bag_snoc) simp
  then have last: "demo_bag (Suc (Suc 0)) 201 = demo_bag (Suc (Suc 0)) 200 @ [(demo_key 200, 200)]"
    by simp
  have "map_set (demo_bag (Suc (Suc 0)) 200 @ [(demo_key 200, 200)]) (demo_key 200) 200 =
        demo_bag (Suc (Suc 0)) 200 @ [(demo_key 200, 200)]"
    using demo_key_fresh [of 200 "Suc (Suc 0)"] by (rule map_set_last)
  then have set: "map_set (demo_bag (Suc (Suc 0)) 201) (demo_key 200) 200 = demo_bag (Suc (Suc 0)) 201"
    unfolding last .
  have len: "SESSION_MEMO_MAX_KEYS \<le> length ((demo_key (Suc 0), Suc 0) # demo_bag (Suc (Suc 0)) 201)"
    by (simp add: demo_bag_length SESSION_MEMO_MAX_KEYS_def)
  have "memo_store ((demo_key (Suc 0), Suc 0) # demo_bag (Suc (Suc 0)) 201) (demo_key 200) 200 =
        map_set (map_delete ((demo_key (Suc 0), Suc 0) # demo_bag (Suc (Suc 0)) 201) (demo_key (Suc 0)))
          (demo_key 200) 200"
    using len by (simp add: memo_store_def map_first_key_def demo_key_nonempty)
  then show ?thesis
    unfolding split del set .
qed

text \<open>
  C2, where the code departs from it. After 200 sequential calls with distinct keys the
  session holds 200 entries. Two further calls with one new key overlap: both miss before
  either stores (the in-flight coalescer hands both the same result, 200 here). The
  first store finds the memo at capacity, evicts the oldest key and appends the new one;
  the second store finds the memo at capacity again and evicts the next oldest key,
  although the key it stores is already there. One new key has cost two entries and the
  session is left with 199. For calls that do not overlap, with the non-empty keys that
  \<^verbatim>\<open>buildToolKey\<close> makes, the bound and the first-in-first-out eviction hold:
  \<open>memo_store_bounded\<close>, \<open>memo_store_evicts_oldest\<close>, \<open>withSessionMemo_hit\<close>.
\<close>

theorem withSessionMemo_overlapping_misses_evict_two:
  "(let full = fst (foldl demo_call (Map.empty, ()) [0..<200]);
        begunA = memo_begin ''s'' (demo_key 200) full;
        begunB = memo_begin ''s'' (demo_key 200) (snd begunA);
        storedA = memo_finish ''s'' (demo_key 200) 200 (snd begunB);
        storedB = memo_finish ''s'' (demo_key 200) 200 storedA
    in map_option (map fst) (full ''s'') = Some (map demo_key [0..<200]) \<and>
       fst begunA = None \<and> fst begunB = None \<and>
       map_option (map fst) (storedA ''s'') = Some (map demo_key [1..<201]) \<and>
       map_option (map fst) (storedB ''s'') = Some (map demo_key [2..<201]) \<and>
       map_option length (storedB ''s'') = Some 199)"
proof -
  have "foldl demo_call (Map.empty, ()) [0..<Suc 199] =
     (Map.empty(''s'' \<mapsto> demo_bag 0 (Suc 199)), ())"
    by (rule demo_calls) simp
  then have full: "fst (foldl demo_call (Map.empty, ()) [0..<200]) = Map.empty(''s'' \<mapsto> demo_bag 0 200)"
    by simp
  have nohit: "map_of (demo_bag 0 200) (demo_key 200) = None"
    using demo_key_fresh [of 200 0] by (simp add: map_of_eq_None_iff)
  have begun: "memo_begin ''s'' (demo_key 200) (Map.empty(''s'' \<mapsto> demo_bag 0 200)) =
      (None, Map.empty(''s'' \<mapsto> demo_bag 0 200))"
    using nohit by (simp add: memo_begin_def)
  have storedA: "memo_finish ''s'' (demo_key 200) 200 (Map.empty(''s'' \<mapsto> demo_bag 0 200)) =
      Map.empty(''s'' \<mapsto> demo_bag (Suc 0) 201)"
    by (simp add: memo_finish_def demo_first_store)
  have storedB: "memo_finish ''s'' (demo_key 200) 200 (Map.empty(''s'' \<mapsto> demo_bag (Suc 0) 201)) =
      Map.empty(''s'' \<mapsto> demo_bag (Suc (Suc 0)) 201)"
    by (simp add: memo_finish_def demo_second_store)
  have keys: "map fst (demo_bag a b) = map demo_key [a..<b]" for a b
    by (simp add: demo_bag_def comp_def)
  have len: "length (demo_bag (Suc (Suc 0)) 201) = 199"
    by (simp add: demo_bag_length)
  have n1: "[1..<201] = [Suc 0..<201]" by (simp only: One_nat_def)
  have n2: "[2..<201] = [Suc (Suc 0)..<201]" by (simp only: numeral_2_eq_2)
  show ?thesis
    unfolding Let_def full begun snd_conv fst_conv storedA storedB n1 n2
    by (simp only: fun_upd_same option.map keys len simp_thms)
qed


section \<open>The claim on the identity of a result record\<close>

text \<open>
  C8 as stated fails in two ways. Two records with the same \<^verbatim>\<open>doi\<close> field and different
  \<^verbatim>\<open>pmid\<close> fields get different natural keys (their \<^verbatim>\<open>pmid\<close>s), because \<^verbatim>\<open>nct_id\<close>,
  \<^verbatim>\<open>data.nct_id\<close>, \<^verbatim>\<open>metadata.pmid\<close> and \<^verbatim>\<open>pmid\<close> come before the DOI. And two records that
  carry the same DOI only in their content get different natural keys (the title
  fallback), because \<^verbatim>\<open>resultId\<close> never calls \<^verbatim>\<open>extractDoi\<close>. The fingerprint is the
  digest of the natural key.
\<close>

theorem resultId_shared_doi_counterexample:
  "doi (empty_record\<lparr>pmid := Some ''31452104'', doi := Some ''10.1000/xyz''\<rparr>) =
     doi (empty_record\<lparr>pmid := Some ''29474321'', doi := Some ''10.1000/xyz''\<rparr>) \<and>
   resultKey no_parser (empty_record\<lparr>pmid := Some ''31452104'', doi := Some ''10.1000/xyz''\<rparr>)
     = ''31452104'' \<and>
   resultKey no_parser (empty_record\<lparr>pmid := Some ''29474321'', doi := Some ''10.1000/xyz''\<rparr>)
     = ''29474321'' \<and>
   extractDoi (content (empty_record\<lparr>title := Some ''GDP growth'',
       content := Some ''See doi:10.1000/XYZ for the data.''\<rparr>)) = Some ''10.1000/xyz'' \<and>
   extractDoi (content (empty_record\<lparr>title := Some ''GDP'',
       content := Some ''Data: https://doi.org/10.1000/xyz''\<rparr>)) = Some ''10.1000/xyz'' \<and>
   resultKey no_parser (empty_record\<lparr>title := Some ''GDP growth'',
       content := Some ''See doi:10.1000/XYZ for the data.''\<rparr>) = ''gdp growth||'' \<and>
   resultKey no_parser (empty_record\<lparr>title := Some ''GDP'',
       content := Some ''Data: https://doi.org/10.1000/xyz''\<rparr>) = ''gdp||''"
  by (simp add: resultKey_def empty_record_def extractArxivId_def normalizeUrl_def or_empty_def
      toLowerCase_def lower_char_def extractDoi_def doi_at_def is_digit_def is_doi_char_def
      is_word_char_def char_of_def bit_0)

lemma first_truthy_append:
  "first_truthy (vs @ ws) final =
     (if first_truthy vs [] \<noteq> [] then first_truthy vs [] else first_truthy ws final)"
  by (induction vs) (auto split: option.splits)

text \<open>
  C8, amended. For two records without \<^verbatim>\<open>nct_id\<close>, \<^verbatim>\<open>data.nct_id\<close>, \<^verbatim>\<open>metadata.pmid\<close> and
  \<^verbatim>\<open>pmid\<close> whose DOI field (\<^verbatim>\<open>metadata.doi\<close>, else \<^verbatim>\<open>doi\<close>) is the same non-empty string,
  \<^verbatim>\<open>resultId\<close> hashes that DOI and returns the same fingerprint, whatever their
  \<^verbatim>\<open>metadata.setid\<close>, URL, title, source and date are: the DOI field comes before the
  arXiv id, the normalized URL and the title|source|date fallback.
\<close>

theorem resultId_doi_field_priority:
  assumes "first_truthy [nct_id r1, data_nct_id r1, metadata_pmid r1, pmid r1] [] = []"
    and "first_truthy [nct_id r2, data_nct_id r2, metadata_pmid r2, pmid r2] [] = []"
    and "first_truthy [metadata_doi r1, doi r1] [] = d"
    and "first_truthy [metadata_doi r2, doi r2] [] = d"
    and "d \<noteq> []"
  shows "resultKey pf r1 = d \<and> resultKey pf r2 = d \<and>
         resultId sha256 pf r1 = resultId sha256 pf r2"
proof -
  have key: "resultKey pf r = d"
    if "first_truthy [nct_id r, data_nct_id r, metadata_pmid r, pmid r] [] = []"
      and "first_truthy [metadata_doi r, doi r] [] = d" for r
  proof -
    have "resultKey pf r =
      first_truthy
        ([nct_id r, data_nct_id r, metadata_pmid r, pmid r] @ [metadata_doi r, doi r] @
         [metadata_setid r, extractArxivId (url r), Some (normalizeUrl pf (url r))])
        (toLowerCase (or_empty (title r)) @ ''|'' @ toLowerCase (or_empty (source r)) @ ''|'' @
         or_empty (date r))"
      by (simp add: resultKey_def)
    also have "\<dots> = d"
      unfolding first_truthy_append using that assms(5) by simp
    finally show ?thesis .
  qed
  show ?thesis
    using key [OF assms(1,3)] key [OF assms(2,4)] by (simp add: resultId_def)
qed


theorem resultId_doi_field_priority_witness:
  "first_truthy [nct_id (empty_record\<lparr>doi := Some ''10.1000/xyz'', url := Some ''https://a.example/p''\<rparr>),
                 data_nct_id (empty_record\<lparr>doi := Some ''10.1000/xyz'', url := Some ''https://a.example/p''\<rparr>),
                 metadata_pmid (empty_record\<lparr>doi := Some ''10.1000/xyz'', url := Some ''https://a.example/p''\<rparr>),
                 pmid (empty_record\<lparr>doi := Some ''10.1000/xyz'', url := Some ''https://a.example/p''\<rparr>)] [] = [] \<and>
   resultKey no_parser (empty_record\<lparr>doi := Some ''10.1000/xyz'', url := Some ''https://a.example/p''\<rparr>)
     = ''10.1000/xyz'' \<and>
   resultId (\<lambda>key. []) no_parser
       (empty_record\<lparr>doi := Some ''10.1000/xyz'', url := Some ''https://a.example/p''\<rparr>) =
     resultId (\<lambda>key. []) no_parser
       (empty_record\<lparr>metadata_doi := Some ''10.1000/xyz'', doi := Some ''10.9999/other'',
          url := Some ''https://b.example/q'', title := Some ''T''\<rparr>)"
proof -
  let ?r1 = "empty_record\<lparr>doi := Some ''10.1000/xyz'', url := Some ''https://a.example/p''\<rparr>"
  let ?r2 = "empty_record\<lparr>metadata_doi := Some ''10.1000/xyz'', doi := Some ''10.9999/other'',
          url := Some ''https://b.example/q'', title := Some ''T''\<rparr>"
  have a1: "first_truthy [nct_id ?r1, data_nct_id ?r1, metadata_pmid ?r1, pmid ?r1] [] = []"
    by (simp add: empty_record_def)
  have a2: "first_truthy [nct_id ?r2, data_nct_id ?r2, metadata_pmid ?r2, pmid ?r2] [] = []"
    by (simp add: empty_record_def)
  have d1: "first_truthy [metadata_doi ?r1, doi ?r1] [] = ''10.1000/xyz''"
    by (simp add: empty_record_def)
  have d2: "first_truthy [metadata_doi ?r2, doi ?r2] [] = ''10.1000/xyz''"
    by (simp add: empty_record_def)
  have ne: "''10.1000/xyz'' \<noteq> []" by simp
  from resultId_doi_field_priority [OF a1 a2 d1 d2 ne, of no_parser "\<lambda>key. []"] a1
  show ?thesis by blast
qed

text \<open>
  In the \<^verbatim>\<open>webSearch\<close> tool a DOI found in the URL, or else in the content, is the key
  that is hashed, before the arXiv id and the normalized URL.
\<close>

lemma webSearchId_extracted_doi:
  assumes "first_truthy [extractDoi (url r), extractDoi (Some (or_empty (content r)))] [] = d"
    and "d \<noteq> []"
  shows "webSearchId sha256 pf r = keyToUuid sha256 d"
  using assms by (simp add: webSearchId_def webSearchKey_def Let_def)


section \<open>The claims on the key canonicalizer\<close>






















end
